theory Spec2Isabelle
  imports Main "HOL-Library.Multiset"
begin

section \<open>Data model of sqlsockets.py\<close>

text \<open>
  Identities are UUIDs in the source. Only equality of identities is ever used, so they
  are modelled as natural numbers; \<open>str(obj.id)\<close> is injective and is modelled as the
  identity.
\<close>

type_synonym uuid = nat

text \<open>
  The pydantic models \<open>Child\<close> and \<open>Parent\<close> (lines 25-31). The field \<open>id\<close> of the
  source is written \<open>id_c\<close> and \<open>id_p\<close> here, since \<open>id\<close> is taken in HOL.
\<close>

record Child =
  id_c :: uuid

record Parent =
  id_p :: uuid
  children :: "Child list"

text \<open>
  The schema (lines 38-70). A row of \<open>parent\<close> has the single column \<open>user_id\<close> and a row
  of \<open>child\<close> the single column \<open>id\<close>; both are modelled by the value of that column.
  A row of \<open>parent_child\<close> has the columns \<open>parent_id\<close> and \<open>child_id\<close>.
\<close>

record parent_child_row =
  parent_id :: uuid
  child_id :: uuid

datatype id_arg = Single uuid | Multi "uuid list"

datatype statement =
    InsertParent "uuid list"
  | InsertChild "uuid list"
  | InsertParentChild "parent_child_row list"
  | SelectJoin id_arg

datatype event = Connect | Begin | Execute statement | Commit | Rollback

text \<open>
  The database behind the module-level \<open>engine\<close>: the three tables, each in insertion
  order, and the sequence of interactions the program has had with the database.

  The program never asks for an order of the rows it selects, so the order in which the
  database hands them out is the database's own choice. That choice is the field
  \<open>row_order\<close>: it ranks the positions of the rows of a join, and the rows come out by
  increasing rank. The program cannot set it, and every property below that does not
  mention it holds for every choice.
\<close>

record database =
  parent_table :: "uuid list"
  child_table :: "uuid list"
  parent_child_table :: "parent_child_row list"
  events :: "event list"
  row_order :: "nat \<Rightarrow> nat"

datatype error = IntegrityError | IndexError

definition log_event :: "event \<Rightarrow> database \<Rightarrow> database" where
  "log_event ev db = db\<lparr>events := events db @ [ev]\<rparr>"

section \<open>The storage layer\<close>

text \<open>
  What one INSERT statement does under the constraints the schema declares:
  \<open>parent.user_id\<close> and \<open>child.id\<close> are primary keys, \<open>(parent_id, child_id)\<close> is the
  composite primary key of \<open>parent_child\<close>, and its two columns are foreign keys into
  \<open>parent\<close> and \<open>child\<close>. A statement that violates a constraint raises and changes
  nothing. The insertion of parents carries \<open>RETURNING user_id\<close>, so it yields the
  inserted keys; the other statements yield no rows.
\<close>

fun run_statement :: "statement \<Rightarrow> database \<Rightarrow> error + (uuid list \<times> database)" where
  "run_statement (InsertParent rows) db =
     (if distinct rows \<and> (\<forall>r \<in> set rows. r \<notin> set (parent_table db))
      then Inr (rows, db\<lparr>parent_table := parent_table db @ rows\<rparr>)
      else Inl IntegrityError)"
| "run_statement (InsertChild rows) db =
     (if distinct rows \<and> (\<forall>r \<in> set rows. r \<notin> set (child_table db))
      then Inr ([], db\<lparr>child_table := child_table db @ rows\<rparr>)
      else Inl IntegrityError)"
| "run_statement (InsertParentChild rows) db =
     (if distinct rows \<and> (\<forall>r \<in> set rows. r \<notin> set (parent_child_table db))
         \<and> (\<forall>r \<in> set rows. parent_id r \<in> set (parent_table db)
                \<and> child_id r \<in> set (child_table db))
      then Inr ([], db\<lparr>parent_child_table := parent_child_table db @ rows\<rparr>)
      else Inl IntegrityError)"
| "run_statement (SelectJoin k) db = Inr ([], db)"

text \<open>\<open>conn.execute(query)\<close>: the statement reaches the database, then runs.\<close>

definition execute :: "statement \<Rightarrow> database \<Rightarrow> (error + uuid list) \<times> database" where
  "execute s db =
     (let db1 = log_event (Execute s) db in
      case run_statement s db1 of
        Inl e \<Rightarrow> (Inl e, db1)
      | Inr (result, db2) \<Rightarrow> (Inr result, db2))"

text \<open>
  \<open>with conn.begin():\<close> commits when the block ends normally, and rolls the three tables
  back to their contents at \<open>BEGIN\<close> when the block raises.
\<close>

definition begin_block ::
  "(database \<Rightarrow> (error + 'a) \<times> database) \<Rightarrow> database \<Rightarrow> (error + 'a) \<times> database" where
  "begin_block body db =
     (case body (log_event Begin db) of
        (Inl e, db1) \<Rightarrow>
          (Inl e, log_event Rollback
             (db1\<lparr>parent_table := parent_table db,
                  child_table := child_table db,
                  parent_child_table := parent_child_table db\<rparr>))
      | (Inr v, db1) \<Rightarrow> (Inr v, log_event Commit db1))"

section \<open>ParentSocket.create-many\<close>

text \<open>The five local collections of \<open>create_many\<close> (lines 85-90).\<close>

record staging =
  parent_instances :: "uuid list"
  child_instances :: "uuid list"
  parent_child_instances :: "parent_child_row list"
  inserted_children :: "uuid set"
  inserted_parent_children :: "parent_child_row set"

definition empty_staging :: staging where
  "empty_staging =
     \<lparr>parent_instances = [], child_instances = [], parent_child_instances = [],
      inserted_children = {}, inserted_parent_children = {}\<rparr>"

text \<open>
  The inner loop (lines 96-100). All three updates stand under the test
  \<open>child.id not in inserted_children\<close>; \<open>inserted_parent_children\<close> is never touched.
\<close>

fun stage_children :: "uuid \<Rightarrow> Child list \<Rightarrow> staging \<Rightarrow> staging" where
  "stage_children p [] st = st"
| "stage_children p (child # rest) st =
     stage_children p rest
       (if id_c child \<notin> inserted_children st
        then st\<lparr>child_instances := child_instances st @ [id_c child],
                inserted_children := insert (id_c child) (inserted_children st),
                parent_child_instances :=
                  parent_child_instances st @ [\<lparr>parent_id = p, child_id = id_c child\<rparr>]\<rparr>
        else st)"

text \<open>The outer loop (lines 93-100).\<close>

fun stage_objs :: "Parent list \<Rightarrow> staging \<Rightarrow> staging" where
  "stage_objs [] st = st"
| "stage_objs (obj # rest) st =
     stage_objs rest
       (stage_children (id_p obj) (children obj)
          (st\<lparr>parent_instances := parent_instances st @ [id_p obj]\<rparr>))"

text \<open>The block under \<open>with conn.begin():\<close> (lines 103-117).\<close>

definition write_staged :: "staging \<Rightarrow> database \<Rightarrow> (error + nat) \<times> database" where
  "write_staged st db =
     (case execute (InsertParent (parent_instances st)) db of
        (Inl e, db1) \<Rightarrow> (Inl e, db1)
      | (Inr result, db1) \<Rightarrow>
          if child_instances st \<noteq> [] then
            (case execute (InsertChild (child_instances st)) db1 of
               (Inl e, db2) \<Rightarrow> (Inl e, db2)
             | (Inr r2, db2) \<Rightarrow>
                 (case execute (InsertParentChild (parent_child_instances st)) db2 of
                    (Inl e, db3) \<Rightarrow> (Inl e, db3)
                  | (Inr r3, db3) \<Rightarrow> (Inr (length result), db3)))
          else (Inr (length result), db1))"

definition create_many :: "Parent list \<Rightarrow> database \<Rightarrow> (error + nat) \<times> database" where
  "create_many objs db =
     (if objs = [] then (Inr 0, db)
      else
        let conn = log_event Connect db;
            st = stage_objs objs empty_staging
        in begin_block (write_staged st) conn)"

section \<open>ParentSocket.query\<close>

text \<open>
  A row of the join is the pair \<open>(parent_id, id)\<close>. \<open>link_child_join\<close> lists the rows
  of \<open>child JOIN parent_child ON child.id = parent_child.child_id\<close> link by link. The
  SELECT of the source (lines 122-137) has no ORDER BY, so what the program receives is
  \<open>join_rows\<close>: the same rows, in the order the database chooses. \<open>reorder rank xs\<close> is
  the list \<open>xs\<close> with its positions sorted by \<open>rank\<close>: always a rearrangement of \<open>xs\<close>,
  and \<open>xs\<close> itself when \<open>rank\<close> is increasing. The rank is an arbitrary function of
  the position, so the order is tied to no table.
\<close>

type_synonym join_row = "uuid \<times> uuid"

definition link_child_join :: "database \<Rightarrow> join_row list" where
  "link_child_join db =
     concat (map (\<lambda>l. map (\<lambda>c. (parent_id l, c))
                          (filter (\<lambda>c. c = child_id l) (child_table db)))
                 (parent_child_table db))"

definition reorder :: "(nat \<Rightarrow> nat) \<Rightarrow> 'a list \<Rightarrow> 'a list" where
  "reorder rank xs = map snd (sort_key (\<lambda>p. rank (fst p)) (enumerate 0 xs))"

definition join_rows :: "database \<Rightarrow> join_row list" where
  "join_rows db = reorder (row_order db) (link_child_join db)"

fun where_clause :: "id_arg \<Rightarrow> join_row \<Rightarrow> bool" where
  "where_clause (Single k) row = (fst row = k)"
| "where_clause (Multi ks) row = (fst row \<in> set ks)"

definition child_query :: "id_arg \<Rightarrow> database \<Rightarrow> join_row list" where
  "child_query k db = filter (where_clause k) (join_rows db)"

text \<open>
  \<open>parents[row["parent_id"]].append(row["id"])\<close> on a \<open>defaultdict(list)\<close>: a dictionary
  keeps its keys in the order of their first insertion, so it is an association list.
\<close>

fun dd_append :: "(uuid \<times> uuid list) list \<Rightarrow> uuid \<Rightarrow> uuid \<Rightarrow> (uuid \<times> uuid list) list" where
  "dd_append [] k v = [(k, [v])]"
| "dd_append ((k', vs) # m) k v =
     (if k' = k then (k', vs @ [v]) # m else (k', vs) # dd_append m k v)"

fun group_rows :: "join_row list \<Rightarrow> (uuid \<times> uuid list) list \<Rightarrow> (uuid \<times> uuid list) list" where
  "group_rows [] parents = parents"
| "group_rows (row # rows) parents = group_rows rows (dd_append parents (fst row) (snd row))"

definition make_parent :: "uuid \<times> uuid list \<Rightarrow> Parent" where
  "make_parent item =
     \<lparr>id_p = fst item, children = map (\<lambda>c. \<lparr>id_c = c\<rparr>) (snd item)\<rparr>"

datatype query_result = One Parent | Many "Parent list"

definition query :: "id_arg \<Rightarrow> database \<Rightarrow> (error + query_result) \<times> database" where
  "query k db =
     (let conn = log_event (Execute (SelectJoin k)) (log_event Connect db);
          rows = child_query k conn;
          parents = group_rows rows [];
          results = map make_parent parents
      in case k of
           Multi ks \<Rightarrow> (Inr (Many results), conn)
         | Single i \<Rightarrow>
             (case results of
                [] \<Rightarrow> (Inl IndexError, conn)
              | r # rs \<Rightarrow> (Inr (One r), conn)))"

section \<open>Notions used to state the properties\<close>

text \<open>
  None of the definitions below is part of the program; they say what the program is
  compared with.
\<close>

subsection \<open>Batches and what they should stage\<close>

definition child_ids :: "Parent \<Rightarrow> uuid list" where
  "child_ids obj = map id_c (children obj)"

text \<open>
  The elements of a list that are not in \<open>seen\<close>, each once, in the order of their
  first occurrence.
\<close>

fun first_seen :: "'a set \<Rightarrow> 'a list \<Rightarrow> 'a list" where
  "first_seen seen [] = []"
| "first_seen seen (x # xs) =
     (if x \<in> seen then first_seen seen xs else x # first_seen (insert x seen) xs)"

definition link :: "uuid \<Rightarrow> uuid \<Rightarrow> parent_child_row" where
  "link p c = \<lparr>parent_id = p, child_id = c\<rparr>"

text \<open>
  The link rows of a batch when a Child is linked only where it is first seen, and the
  link rows of all its memberships.
\<close>

fun links_of :: "uuid set \<Rightarrow> Parent list \<Rightarrow> parent_child_row list" where
  "links_of seen [] = []"
| "links_of seen (obj # rest) =
     map (link (id_p obj)) (first_seen seen (child_ids obj))
       @ links_of (seen \<union> set (child_ids obj)) rest"

definition all_links :: "Parent list \<Rightarrow> parent_child_row list" where
  "all_links objs = concat (map (\<lambda>obj. map (link (id_p obj)) (child_ids obj)) objs)"

text \<open>The first Parent of the batch, in input order, whose child list contains \<open>c\<close>.\<close>

definition first_parent :: "Parent list \<Rightarrow> uuid \<Rightarrow> uuid option" where
  "first_parent objs c = map_option id_p (find (\<lambda>obj. c \<in> set (child_ids obj)) objs)"

subsection \<open>The transaction\<close>

text \<open>The statements of the transaction, in the order the source executes them.\<close>

definition statements :: "staging \<Rightarrow> statement list" where
  "statements st =
     InsertParent (parent_instances st) #
       (if child_instances st \<noteq> []
        then [InsertChild (child_instances st), InsertParentChild (parent_child_instances st)]
        else [])"

definition same_tables :: "database \<Rightarrow> database \<Rightarrow> bool" where
  "same_tables a b =
     (parent_table a = parent_table b \<and> child_table a = child_table b
        \<and> parent_child_table a = parent_child_table b)"

text \<open>
  The constraints, as each statement meets them: the parents against the database as it
  is, the children likewise, the links against the database with the parents \<open>ps\<close> and
  the children \<open>cs\<close> already inserted.
\<close>

definition parents_ok :: "uuid list \<Rightarrow> database \<Rightarrow> bool" where
  "parents_ok ps db = (distinct ps \<and> (\<forall>r \<in> set ps. r \<notin> set (parent_table db)))"

definition children_ok :: "uuid list \<Rightarrow> database \<Rightarrow> bool" where
  "children_ok cs db = (distinct cs \<and> (\<forall>r \<in> set cs. r \<notin> set (child_table db)))"

definition links_ok :: "uuid list \<Rightarrow> uuid list \<Rightarrow> parent_child_row list \<Rightarrow> database \<Rightarrow> bool" where
  "links_ok ps cs ls db =
     (distinct ls \<and> (\<forall>r \<in> set ls. r \<notin> set (parent_child_table db))
        \<and> (\<forall>r \<in> set ls. parent_id r \<in> set (parent_table db) \<union> set ps
               \<and> child_id r \<in> set (child_table db) \<union> set cs))"

text \<open>No statement of the transaction violates a constraint.\<close>

definition batch_ok :: "staging \<Rightarrow> database \<Rightarrow> bool" where
  "batch_ok st db =
     (parents_ok (parent_instances st) db
      \<and> (child_instances st = []
           \<or> (children_ok (child_instances st) db
               \<and> links_ok (parent_instances st) (child_instances st)
                     (parent_child_instances st) db)))"

text \<open>
  A batch collides with the database when one of its Parent identities is a stored parent
  or one of its Child identities a stored child. In a database that respects the foreign
  key on \<open>parent_id\<close>, every link row names a stored parent.
\<close>

definition no_collision :: "Parent list \<Rightarrow> database \<Rightarrow> bool" where
  "no_collision objs db =
     (set (map id_p objs) \<inter> set (parent_table db) = {}
      \<and> set (concat (map child_ids objs)) \<inter> set (child_table db) = {})"

definition links_have_parents :: "database \<Rightarrow> bool" where
  "links_have_parents db = (\<forall>l \<in> set (parent_child_table db). parent_id l \<in> set (parent_table db))"

subsection \<open>The aggregate the join holds for an identity\<close>

definition children_of :: "join_row list \<Rightarrow> uuid \<Rightarrow> uuid list" where
  "children_of rows k = map snd (filter (\<lambda>row. fst row = k) rows)"

definition aggregate :: "join_row list \<Rightarrow> uuid \<Rightarrow> Parent" where
  "aggregate rows k = \<lparr>id_p = k, children = map (\<lambda>c. \<lparr>id_c = c\<rparr>) (children_of rows k)\<rparr>"

subsection \<open>Concrete batches and databases\<close>

text \<open>
  An empty database that hands rows out in the order of the link table, and one that
  hands them out in the opposite order (for joins of up to a hundred rows).
\<close>

definition empty_db :: database where
  "empty_db =
     \<lparr>parent_table = [], child_table = [], parent_child_table = [], events = [],
      row_order = (\<lambda>i. i)\<rparr>"

definition reversing_db :: database where
  "reversing_db = empty_db\<lparr>row_order := (\<lambda>i. 100 - i)\<rparr>"

text \<open>The database hands the rows of a join out in the order of the link table.\<close>

definition in_link_order :: "database \<Rightarrow> bool" where
  "in_link_order db = (\<forall>i j. i \<le> j \<longrightarrow> row_order db i \<le> row_order db j)"

definition new_parent :: "uuid \<Rightarrow> uuid list \<Rightarrow> Parent" where
  "new_parent p cs = \<lparr>id_p = p, children = map (\<lambda>c. \<lparr>id_c = c\<rparr>) cs\<rparr>"

text \<open>
  The batch the source file writes (lines 155-159): \<open>parent1\<close> with two children,
  \<open>parent2\<close> with one, \<open>parent3\<close> with a child of its own and the first child of
  \<open>parent1\<close>; and the database after it has been written to an empty one.
\<close>

definition sample_batch :: "Parent list" where
  "sample_batch = [new_parent 1 [10, 11], new_parent 2 [12], new_parent 3 [13, 10]]"

definition stored_sample :: database where
  "stored_sample = snd (create_many sample_batch empty_db)"

text \<open>
  The database after a batch with a Parent that has no children has been written to an
  empty one.
\<close>

definition childless_store :: database where
  "childless_store = snd (create_many [new_parent 1 [10], new_parent 2 []] empty_db)"

text \<open>
  Two further batches: one whose second Parent lists a Child that the sample database
  already stores, and one that shares nothing with the sample database.
\<close>

definition colliding_batch :: "Parent list" where
  "colliding_batch = [new_parent 4 [14], new_parent 5 [10]]"

definition disjoint_batch :: "Parent list" where
  "disjoint_batch = [new_parent 4 [14, 15], new_parent 5 [], new_parent 6 [16]]"

section \<open>Staging\<close>

lemma first_seen_append:
  "first_seen seen (xs @ ys) = first_seen seen xs @ first_seen (seen \<union> set xs) ys"
  by (induction xs arbitrary: seen) (auto simp: insert_absorb)

lemma set_first_seen: "set (first_seen seen xs) = set xs - seen"
  by (induction xs arbitrary: seen) auto

lemma distinct_first_seen: "distinct (first_seen seen xs)"
  by (induction xs arbitrary: seen) (auto simp: set_first_seen)

lemma first_seen_distinct_id:
  "distinct xs \<Longrightarrow> set xs \<inter> seen = {} \<Longrightarrow> first_seen seen xs = xs"
  by (induction xs arbitrary: seen) auto

lemma stage_children_parent_instances:
  "parent_instances (stage_children p cs st) = parent_instances st"
  by (induction cs arbitrary: st) auto

lemma stage_children_inserted:
  "inserted_children (stage_children p cs st) = inserted_children st \<union> id_c ` set cs"
  by (induction cs arbitrary: st) auto

lemma stage_children_child_instances:
  "child_instances (stage_children p cs st) =
     child_instances st @ first_seen (inserted_children st) (map id_c cs)"
  by (induction cs arbitrary: st) auto

lemma stage_children_links:
  "parent_child_instances (stage_children p cs st) =
     parent_child_instances st @ map (link p) (first_seen (inserted_children st) (map id_c cs))"
  by (induction cs arbitrary: st) (auto simp: link_def)

lemma stage_objs_parent_instances:
  "parent_instances (stage_objs objs st) = parent_instances st @ map id_p objs"
  by (induction objs arbitrary: st) (auto simp: stage_children_parent_instances)

lemma stage_objs_inserted:
  "inserted_children (stage_objs objs st) =
     inserted_children st \<union> set (concat (map child_ids objs))"
  by (induction objs arbitrary: st) (auto simp: stage_children_inserted child_ids_def)

lemma stage_objs_child_instances:
  "child_instances (stage_objs objs st) =
     child_instances st @ first_seen (inserted_children st) (concat (map child_ids objs))"
  by (induction objs arbitrary: st)
     (auto simp: stage_children_child_instances stage_children_inserted first_seen_append child_ids_def)

lemma stage_objs_links:
  "parent_child_instances (stage_objs objs st) =
     parent_child_instances st @ links_of (inserted_children st) objs"
  by (induction objs arbitrary: st)
     (auto simp: stage_children_links stage_children_inserted child_ids_def)

lemma child_id_links_of:
  "map child_id (links_of seen objs) = first_seen seen (concat (map child_ids objs))"
  by (induction objs arbitrary: seen) (auto simp: first_seen_append link_def comp_def)

lemma links_of_first_parent:
  "l \<in> set (links_of seen objs) \<Longrightarrow> first_parent objs (child_id l) = Some (parent_id l)"
proof (induction objs arbitrary: seen)
  case Nil
  then show ?case by simp
next
  case (Cons obj rest)
  show ?case
  proof (cases "l \<in> set (map (link (id_p obj)) (first_seen seen (child_ids obj)))")
    case True
    then show ?thesis
      by (auto simp: first_parent_def set_first_seen link_def)
  next
    case False
    with Cons.prems have in_rest: "l \<in> set (links_of (seen \<union> set (child_ids obj)) rest)"
      by simp
    then have "child_id l \<in> set (map child_id (links_of (seen \<union> set (child_ids obj)) rest))"
      by simp
    then have "child_id l \<notin> set (child_ids obj)"
      by (simp add: child_id_links_of set_first_seen)
    with Cons.IH[OF in_rest] show ?thesis
      by (simp add: first_parent_def)
  qed
qed

section \<open>The order of the rows\<close>

lemma mset_reorder: "mset (reorder rank xs) = mset xs"
proof -
  have "mset (map snd (sort_key (\<lambda>p. rank (fst p)) (enumerate 0 xs)))
      = mset (map snd (enumerate 0 xs))"
    by (simp del: map_snd_enumerate)
  then show ?thesis
    by (simp add: reorder_def)
qed

lemma set_reorder: "set (reorder rank xs) = set xs"
  using mset_reorder [of rank xs] by (rule mset_eq_setD)

lemma reorder_increasing:
  assumes "\<forall>i j. i \<le> j \<longrightarrow> rank i \<le> rank j"
  shows "reorder rank xs = xs"
proof -
  have "sorted_wrt (\<lambda>i j. rank i \<le> rank j) [0..<length xs]"
    using assms by (simp add: sorted_wrt_iff_nth_less)
  then have "sorted (map rank [0..<length xs])"
    by (simp add: sorted_map)
  moreover have "map (\<lambda>p. rank (fst p)) (enumerate 0 xs) = map rank (map fst (enumerate 0 xs))"
    by (simp add: comp_def del: map_fst_enumerate)
  ultimately have "sorted (map (\<lambda>p. rank (fst p)) (enumerate 0 xs))"
    by simp
  then have "sort_key (\<lambda>p. rank (fst p)) (enumerate 0 xs) = enumerate 0 xs"
    by (rule sort_key_id_if_sorted)
  then show ?thesis
    by (simp add: reorder_def)
qed

lemma set_join_rows: "set (join_rows db) = set (link_child_join db)"
  by (simp add: join_rows_def set_reorder)

lemma mset_join_rows: "mset (join_rows db) = mset (link_child_join db)"
  by (simp add: join_rows_def mset_reorder)

lemma join_rows_in_link_order: "in_link_order db \<Longrightarrow> join_rows db = link_child_join db"
  by (simp add: join_rows_def in_link_order_def reorder_increasing)

lemma mset_children_of: "mset rows = mset rows' \<Longrightarrow> mset (children_of rows k) = mset (children_of rows' k)"
  by (simp add: children_of_def)

section \<open>Regrouping\<close>

lemma dd_append_keys:
  "map fst (dd_append m k v) = (if k \<in> fst ` set m then map fst m else map fst m @ [k])"
  by (induction m k v rule: dd_append.induct) auto

lemma dd_append_map_of:
  "map_of (dd_append m k v) =
     (map_of m)(k \<mapsto> (case map_of m k of None \<Rightarrow> [v] | Some vs \<Rightarrow> vs @ [v]))"
  by (induction m k v rule: dd_append.induct) (auto simp: fun_eq_iff)

lemma dd_append_dom: "fst ` set (dd_append m k v) = insert k (fst ` set m)"
  by (induction m k v rule: dd_append.induct) auto

lemma group_rows_keys:
  "map fst (group_rows rows m) = map fst m @ first_seen (fst ` set m) (map fst rows)"
proof (induction rows arbitrary: m)
  case Nil
  then show ?case by simp
next
  case (Cons row rows)
  show ?case
    by (simp add: Cons.IH dd_append_keys dd_append_dom insert_absorb)
qed

lemma group_rows_map_of:
  "map_of (group_rows rows m) k =
     (case map_of m k of
        None \<Rightarrow> if k \<in> fst ` set rows then Some (children_of rows k) else None
      | Some vs \<Rightarrow> Some (vs @ children_of rows k))"
proof (induction rows arbitrary: m)
  case Nil
  then show ?case by (simp add: children_of_def split: option.splits)
next
  case (Cons row rows)
  show ?case
    by (cases "fst row = k")
       (auto simp: Cons.IH dd_append_map_of children_of_def split: option.splits)
qed

lemma alist_by_keys:
  "\<forall>item \<in> set m. snd item = f (fst item) \<Longrightarrow> m = map (\<lambda>k. (k, f k)) (map fst m)"
  by (induction m) auto

lemma group_rows_eq:
  "group_rows rows [] = map (\<lambda>k. (k, children_of rows k)) (first_seen {} (map fst rows))"
proof -
  let ?g = "group_rows rows []"
  have keys: "map fst ?g = first_seen {} (map fst rows)"
    using group_rows_keys[of rows "[]"] by simp
  then have dist: "distinct (map fst ?g)"
    by (simp add: distinct_first_seen)
  have "\<forall>item \<in> set ?g. snd item = children_of rows (fst item)"
  proof
    fix item assume "item \<in> set ?g"
    with dist have "map_of ?g (fst item) = Some (snd item)"
      by simp
    then show "snd item = children_of rows (fst item)"
      by (simp add: group_rows_map_of split: if_splits)
  qed
  then have "?g = map (\<lambda>k. (k, children_of rows k)) (map fst ?g)"
    by (rule alist_by_keys)
  with keys show ?thesis by simp
qed

lemma child_query_log [simp]: "child_query k (log_event ev db) = child_query k db"
  by (simp add: child_query_def join_rows_def link_child_join_def log_event_def)

lemma query_results:
  "map make_parent (group_rows rows []) = map (aggregate rows) (first_seen {} (map fst rows))"
  by (simp add: group_rows_eq make_parent_def aggregate_def comp_def)

lemma query_multi_eq:
  "fst (query (Multi ks) db) =
     Inr (Many (map (aggregate (child_query (Multi ks) db))
                    (first_seen {} (map fst (child_query (Multi ks) db)))))"
  by (simp add: query_def Let_def query_results)

lemma query_single_eq:
  "fst (query (Single k) db) =
     (if child_query (Single k) db = [] then Inl IndexError
      else Inr (One (aggregate (child_query (Single k) db) k)))"
proof (cases "child_query (Single k) db")
  case Nil
  then show ?thesis by (simp add: query_def Let_def)
next
  case (Cons row rows)
  then have "row \<in> set (child_query (Single k) db)" by simp
  then have k: "fst row = k" by (simp add: child_query_def)
  show ?thesis
    by (simp add: query_def Let_def query_results Cons k)
qed

lemma children_of_filter:
  assumes "\<And>row. fst row = k \<Longrightarrow> P row"
  shows "children_of (filter P rows) k = children_of rows k"
proof -
  have "filter (\<lambda>row. fst row = k) (filter P rows) = filter (\<lambda>row. fst row = k) rows"
    using assms by (induction rows) auto
  then show ?thesis by (simp add: children_of_def)
qed

lemma children_of_multi:
  "k \<in> set ks \<Longrightarrow> children_of (child_query (Multi ks) db) k = children_of (join_rows db) k"
  unfolding child_query_def by (rule children_of_filter) simp

lemma children_of_single:
  "children_of (child_query (Single k) db) k = children_of (join_rows db) k"
  unfolding child_query_def by (rule children_of_filter) simp

lemma children_of_empty_iff: "children_of rows k = [] \<longleftrightarrow> k \<notin> fst ` set rows"
  by (induction rows) (auto simp: children_of_def)

lemma keys_multi:
  "fst ` set (child_query (Multi ks) db) = {k \<in> set ks. k \<in> fst ` set (join_rows db)}"
  by (auto simp: child_query_def)

lemma id_p_aggregate [simp]: "id_p (aggregate rows k) = k"
  by (simp add: aggregate_def)

lemma children_aggregate_empty_iff: "children (aggregate rows k) = [] \<longleftrightarrow> k \<notin> fst ` set rows"
  by (simp add: aggregate_def children_of_empty_iff)

lemma distinct_occurs_once:
  "distinct xs \<Longrightarrow> x \<in> set xs \<Longrightarrow> length (filter (\<lambda>y. y = x) xs) = 1"
  by (induction xs) (auto simp: filter_empty_conv)

lemma query_multi_aggregates:
  "fst (query (Multi ks) db) =
     Inr (Many (map (aggregate (join_rows db))
                    (first_seen {} (map fst (child_query (Multi ks) db)))))"
proof -
  have "map (aggregate (child_query (Multi ks) db))
            (first_seen {} (map fst (child_query (Multi ks) db)))
        = map (aggregate (join_rows db))
            (first_seen {} (map fst (child_query (Multi ks) db)))"
  proof (rule map_cong [OF refl])
    fix k assume "k \<in> set (first_seen {} (map fst (child_query (Multi ks) db)))"
    then have "k \<in> fst ` set (child_query (Multi ks) db)"
      by (simp add: set_first_seen)
    then have "k \<in> set ks"
      by (simp add: keys_multi)
    then show "aggregate (child_query (Multi ks) db) k = aggregate (join_rows db) k"
      by (simp add: aggregate_def children_of_multi)
  qed
  then show ?thesis
    by (simp add: query_multi_eq)
qed

lemma query_single_aggregate:
  "fst (query (Single k) db) =
     (if k \<in> fst ` set (join_rows db) then Inr (One (aggregate (join_rows db) k))
      else Inl IndexError)"
proof -
  have "child_query (Single k) db = [] \<longleftrightarrow> k \<notin> fst ` set (join_rows db)"
    by (auto simp: child_query_def filter_empty_conv)
  then show ?thesis
    by (simp add: query_single_eq aggregate_def children_of_single)
qed

lemma join_rows_keys: "fst ` set (join_rows db) \<subseteq> parent_id ` set (parent_child_table db)"
  by (auto simp: set_join_rows link_child_join_def)

section \<open>The transaction\<close>

lemma create_many_unfold:
  assumes "objs \<noteq> []"
  shows "create_many objs db =
     (let st = stage_objs objs empty_staging;
          ps = parent_instances st; cs = child_instances st; ls = parent_child_instances st;
          ev = events db @ [Connect, Begin, Execute (InsertParent ps)]
      in if \<not> parents_ok ps db then
           (Inl IntegrityError, db\<lparr>events := ev @ [Rollback]\<rparr>)
         else if cs = [] then
           (Inr (length ps), db\<lparr>parent_table := parent_table db @ ps, events := ev @ [Commit]\<rparr>)
         else if \<not> children_ok cs db then
           (Inl IntegrityError, db\<lparr>events := ev @ [Execute (InsertChild cs), Rollback]\<rparr>)
         else if \<not> links_ok ps cs ls db then
           (Inl IntegrityError,
            db\<lparr>events := ev @ [Execute (InsertChild cs), Execute (InsertParentChild ls), Rollback]\<rparr>)
         else
           (Inr (length ps),
            db\<lparr>parent_table := parent_table db @ ps,
               child_table := child_table db @ cs,
               parent_child_table := parent_child_table db @ ls,
               events := ev @ [Execute (InsertChild cs), Execute (InsertParentChild ls), Commit]\<rparr>))"
  using assms
  by (auto simp add: create_many_def begin_block_def write_staged_def execute_def log_event_def
        parents_ok_def children_ok_def links_ok_def Let_def)

lemma staged_parents: "parent_instances (stage_objs objs empty_staging) = map id_p objs"
  by (simp add: stage_objs_parent_instances empty_staging_def)

lemma staged_children:
  "child_instances (stage_objs objs empty_staging) = first_seen {} (concat (map child_ids objs))"
  by (simp add: stage_objs_child_instances empty_staging_def)

lemma staged_links: "parent_child_instances (stage_objs objs empty_staging) = links_of {} objs"
  by (simp add: stage_objs_links empty_staging_def)

lemma distinct_links_of: "distinct (links_of seen objs)"
proof -
  have "distinct (map child_id (links_of seen objs))"
    by (simp add: child_id_links_of distinct_first_seen)
  then show ?thesis
    by (rule distinct_map [THEN iffD1, THEN conjunct1])
qed

lemma parent_id_links_of: "parent_id ` set (links_of seen objs) \<subseteq> id_p ` set objs"
  by (induction objs arbitrary: seen) (auto simp: link_def)

lemma links_of_empty: "first_seen seen (concat (map child_ids objs)) = [] \<Longrightarrow> links_of seen objs = []"
  using child_id_links_of [of seen objs] by simp

lemma create_many_succeeds:
  assumes "objs \<noteq> []" and "distinct (map id_p objs)" and "no_collision objs db"
    and "links_have_parents db"
  shows "fst (create_many objs db) = Inr (length objs)"
    and "parent_table (snd (create_many objs db)) = parent_table db @ map id_p objs"
    and "child_table (snd (create_many objs db)) =
           child_table db @ first_seen {} (concat (map child_ids objs))"
    and "parent_child_table (snd (create_many objs db)) =
           parent_child_table db @ links_of {} objs"
proof -
  let ?st = "stage_objs objs empty_staging"
  let ?cs = "first_seen {} (concat (map child_ids objs))"
  have p: "parents_ok (parent_instances ?st) db"
    using assms(2,3) by (auto simp: parents_ok_def staged_parents no_collision_def)
  have c: "children_ok (child_instances ?st) db"
    using assms(3)
    by (auto simp: children_ok_def staged_children no_collision_def distinct_first_seen
          set_first_seen)
  have fresh: "\<forall>r \<in> set (links_of {} objs). r \<notin> set (parent_child_table db)"
  proof
    fix r assume "r \<in> set (links_of {} objs)"
    with parent_id_links_of [of "{}" objs] have "parent_id r \<in> id_p ` set objs"
      by blast
    with assms(3) have "parent_id r \<notin> set (parent_table db)"
      by (auto simp: no_collision_def)
    with assms(4) show "r \<notin> set (parent_child_table db)"
      by (auto simp: links_have_parents_def)
  qed
  have refs: "\<forall>r \<in> set (links_of {} objs).
      parent_id r \<in> set (parent_table db) \<union> set (map id_p objs)
      \<and> child_id r \<in> set (child_table db) \<union> set ?cs"
  proof
    fix r assume r: "r \<in> set (links_of {} objs)"
    with parent_id_links_of [of "{}" objs] have "parent_id r \<in> set (map id_p objs)"
      by auto
    moreover from r have "child_id r \<in> set (map child_id (links_of {} objs))"
      by simp
    then have "child_id r \<in> set ?cs"
      by (simp add: child_id_links_of)
    ultimately show "parent_id r \<in> set (parent_table db) \<union> set (map id_p objs)
      \<and> child_id r \<in> set (child_table db) \<union> set ?cs"
      by simp
  qed
  have l: "links_ok (parent_instances ?st) (child_instances ?st) (parent_child_instances ?st) db"
    unfolding links_ok_def staged_parents staged_children staged_links
    using distinct_links_of fresh refs by blast
  have e: "child_instances ?st = [] \<Longrightarrow> parent_child_instances ?st = []"
    by (simp add: staged_children staged_links links_of_empty)
  show "fst (create_many objs db) = Inr (length objs)"
    using p c l by (simp add: create_many_unfold [OF assms(1)] Let_def staged_parents)
  show "parent_table (snd (create_many objs db)) = parent_table db @ map id_p objs"
    using p c l by (simp add: create_many_unfold [OF assms(1)] Let_def staged_parents)
  show "child_table (snd (create_many objs db)) = child_table db @ ?cs"
    using p c l by (simp add: create_many_unfold [OF assms(1)] Let_def staged_children)
  show "parent_child_table (snd (create_many objs db)) = parent_child_table db @ links_of {} objs"
    using p c l e by (auto simp add: create_many_unfold [OF assms(1)] Let_def staged_links)
qed

lemma distinct_count_le_one: "distinct xs \<Longrightarrow> count_list xs x \<le> 1"
  by (induction xs) auto

section \<open>Reading back what was written\<close>

lemma links_of_all_links:
  "distinct (concat (map child_ids objs)) \<Longrightarrow> set (concat (map child_ids objs)) \<inter> seen = {}
     \<Longrightarrow> links_of seen objs = all_links objs"
proof (induction objs arbitrary: seen)
  case Nil
  then show ?case by (simp add: all_links_def)
next
  case (Cons obj rest)
  from Cons.prems have here: "first_seen seen (child_ids obj) = child_ids obj"
    by (intro first_seen_distinct_id) auto
  from Cons.prems have "links_of (seen \<union> set (child_ids obj)) rest = all_links rest"
    by (intro Cons.IH) auto
  with here show ?case
    by (simp add: all_links_def)
qed

lemma filter_all_links:
  "distinct (map id_p objs) \<Longrightarrow> obj \<in> set objs
     \<Longrightarrow> filter (\<lambda>l. parent_id l = id_p obj) (all_links objs)
         = map (link (id_p obj)) (child_ids obj)"
proof (induction objs)
  case Nil
  then show ?case by simp
next
  case (Cons a rest)
  have other: "\<And>o'. id_p o' \<noteq> id_p obj
      \<Longrightarrow> filter (\<lambda>l. parent_id l = id_p obj) (map (link (id_p o')) (child_ids o')) = []"
    by (simp add: filter_empty_conv link_def)
  have same: "\<And>o'. id_p o' = id_p obj
      \<Longrightarrow> filter (\<lambda>l. parent_id l = id_p obj) (map (link (id_p o')) (child_ids o'))
          = map (link (id_p o')) (child_ids o')"
    by (simp add: filter_id_conv link_def)
  show ?case
  proof (cases "obj = a")
    case True
    from Cons.prems(1) have "id_p a \<notin> id_p ` set rest"
      by simp
    with True have "\<forall>o' \<in> set rest. id_p o' \<noteq> id_p obj"
      by (metis imageI)
    then have "filter (\<lambda>l. parent_id l = id_p obj) (all_links rest) = []"
      by (auto simp: all_links_def filter_empty_conv link_def)
    with True same [of a] show ?thesis
      by (simp add: all_links_def)
  next
    case False
    with Cons.prems have in_rest: "obj \<in> set rest" and "id_p a \<noteq> id_p obj"
      by auto
    with Cons.IH Cons.prems other [of a] show ?thesis
      by (simp add: all_links_def)
  qed
qed

lemma children_of_link_child_join:
  "children_of (link_child_join db) k =
     concat (map (\<lambda>l. filter (\<lambda>c. c = child_id l) (child_table db))
                 (filter (\<lambda>l. parent_id l = k) (parent_child_table db)))"
proof -
  have "map snd (filter (\<lambda>row. fst row = k)
            (concat (map (\<lambda>l. map (\<lambda>c. (parent_id l, c))
                                 (filter (\<lambda>c. c = child_id l) (child_table db))) ls)))
        = concat (map (\<lambda>l. filter (\<lambda>c. c = child_id l) (child_table db))
                      (filter (\<lambda>l. parent_id l = k) ls))" for ls
    by (induction ls) (simp_all add: filter_map comp_def)
  then show ?thesis
    by (simp add: children_of_def link_child_join_def)
qed

lemma filter_eq_singleton:
  "distinct xs \<Longrightarrow> x \<in> set xs \<Longrightarrow> filter (\<lambda>y. y = x) xs = [x]"
  by (induction xs) (auto simp: filter_empty_conv)

lemma concat_singletons:
  "\<forall>x \<in> set xs. f x = [x] \<Longrightarrow> concat (map f xs) = xs"
  by (induction xs) auto

lemma child_eta: "\<lparr>id_c = id_c x\<rparr> = x"
  by (cases x) simp

lemma new_parent_child_ids: "new_parent (id_p obj) (child_ids obj) = obj"
  by (cases obj) (simp add: new_parent_def child_ids_def comp_def child_eta)

lemma fetch_after_write:
  assumes "objs \<noteq> []" and "distinct (map id_p objs)"
    and "distinct (concat (map child_ids objs))"
    and "no_collision objs db" and "links_have_parents db" and "obj \<in> set objs"
  shows "children_of (link_child_join (snd (create_many objs db))) (id_p obj) = child_ids obj"
proof -
  let ?db' = "snd (create_many objs db)"
  let ?cs = "concat (map child_ids objs)"
  have cs: "child_table ?db' = child_table db @ ?cs"
    using create_many_succeeds(3) [OF assms(1,2,4,5)] assms(3)
    by (simp add: first_seen_distinct_id)
  have ls: "parent_child_table ?db' = parent_child_table db @ all_links objs"
    using create_many_succeeds(4) [OF assms(1,2,4,5)] assms(3)
    by (simp add: links_of_all_links)
  from assms(4,6) have "id_p obj \<notin> set (parent_table db)"
    by (auto simp: no_collision_def)
  with assms(5) have old: "filter (\<lambda>l. parent_id l = id_p obj) (parent_child_table db) = []"
    by (auto simp: links_have_parents_def filter_empty_conv)
  have new: "filter (\<lambda>l. parent_id l = id_p obj) (all_links objs)
      = map (link (id_p obj)) (child_ids obj)"
    using assms(2,6) by (rule filter_all_links)
  have one: "\<forall>c \<in> set (child_ids obj). filter (\<lambda>c'. c' = c) (child_table db @ ?cs) = [c]"
  proof
    fix c assume c: "c \<in> set (child_ids obj)"
    with assms(6) have in_cs: "c \<in> set ?cs"
      by auto
    with assms(4) have "c \<notin> set (child_table db)"
      by (auto simp: no_collision_def)
    then have "filter (\<lambda>c'. c' = c) (child_table db) = []"
      by (auto simp: filter_empty_conv)
    moreover from assms(3) in_cs have "filter (\<lambda>c'. c' = c) ?cs = [c]"
      by (rule filter_eq_singleton)
    ultimately show "filter (\<lambda>c'. c' = c) (child_table db @ ?cs) = [c]"
      by simp
  qed
  have "children_of (link_child_join ?db') (id_p obj)
      = concat (map (\<lambda>c. filter (\<lambda>c'. c' = c) (child_table db @ ?cs)) (child_ids obj))"
    by (simp add: children_of_link_child_join cs ls old new comp_def link_def)
  also have "\<dots> = child_ids obj"
    using one by (rule concat_singletons)
  finally show ?thesis .
qed

lemma fetch_children_mset:
  assumes "objs \<noteq> []" and "distinct (map id_p objs)"
    and "distinct (concat (map child_ids objs))"
    and "no_collision objs db" and "links_have_parents db" and "obj \<in> set objs"
  shows "mset (children_of (join_rows (snd (create_many objs db))) (id_p obj))
           = mset (child_ids obj)"
proof -
  have "mset (children_of (join_rows (snd (create_many objs db))) (id_p obj))
      = mset (children_of (link_child_join (snd (create_many objs db))) (id_p obj))"
    by (rule mset_children_of) (rule mset_join_rows)
  then show ?thesis
    using fetch_after_write [OF assms] by simp
qed

lemma links_of_append:
  "links_of seen (xs @ ys) = links_of seen xs @ links_of (seen \<union> set (concat (map child_ids xs))) ys"
  by (induction xs arbitrary: seen) (auto simp: Un_assoc)

lemma distinct_count_one: "distinct xs \<Longrightarrow> x \<in> set xs \<Longrightarrow> count_list xs x = 1"
  by (induction xs) auto

lemma length_first_seen_le: "length (first_seen seen xs) \<le> card (set xs)"
proof -
  have "length (first_seen seen xs) = card (set (first_seen seen xs))"
    by (simp add: distinct_card distinct_first_seen)
  also have "\<dots> \<le> card (set xs)"
    by (rule card_mono) (auto simp: set_first_seen)
  finally show ?thesis .
qed

lemma repeated_shorter: "2 \<le> count_list xs x \<Longrightarrow> card (set xs) < length xs"
proof -
  assume two: "2 \<le> count_list xs x"
  have "\<not> distinct xs"
  proof
    assume "distinct xs"
    then have "count_list xs x \<le> 1" by (rule distinct_count_le_one)
    with two show False by simp
  qed
  then have "card (set xs) \<noteq> length xs"
    using card_distinct by blast
  with card_length [of xs] show ?thesis
    by simp
qed

lemma no_links_of_other_parents:
  "id_p obj \<notin> id_p ` set objs \<Longrightarrow> filter (\<lambda>l. parent_id l = id_p obj) (links_of seen objs) = []"
proof -
  assume other: "id_p obj \<notin> id_p ` set objs"
  have "\<forall>l \<in> set (links_of seen objs). parent_id l \<noteq> id_p obj"
  proof
    fix l assume "l \<in> set (links_of seen objs)"
    with parent_id_links_of [of seen objs] have "parent_id l \<in> id_p ` set objs"
      by blast
    with other show "parent_id l \<noteq> id_p obj"
      by auto
  qed
  then show ?thesis
    by (simp add: filter_empty_conv)
qed


section \<open>The sample databases\<close>

lemma row_order_create_many: "row_order (snd (create_many objs db)) = row_order db"
proof (cases "objs = []")
  case True
  then show ?thesis by (simp add: create_many_def)
next
  case False
  then show ?thesis
    by (simp add: create_many_unfold Let_def)
qed

lemma stored_sample_eq:
  "stored_sample =
     \<lparr>parent_table = [1, 2, 3], child_table = [10, 11, 12, 13],
      parent_child_table = [link 1 10, link 1 11, link 2 12, link 3 13],
      events = [Connect, Begin, Execute (InsertParent [1, 2, 3]),
                Execute (InsertChild [10, 11, 12, 13]),
                Execute (InsertParentChild [link 1 10, link 1 11, link 2 12, link 3 13]),
                Commit],
      row_order = (\<lambda>i. i)\<rparr>"
  by (simp add: stored_sample_def create_many_def begin_block_def write_staged_def execute_def
        log_event_def sample_batch_def new_parent_def empty_db_def empty_staging_def link_def)

lemma join_rows_stored_sample: "join_rows stored_sample = [(1, 10), (1, 11), (2, 12), (3, 13)]"
proof -
  have "in_link_order stored_sample"
    by (simp add: in_link_order_def stored_sample_eq)
  then have "join_rows stored_sample = link_child_join stored_sample"
    by (rule join_rows_in_link_order)
  then show ?thesis
    by (simp add: stored_sample_eq link_child_join_def link_def)
qed

lemma childless_store_eq:
  "childless_store =
     \<lparr>parent_table = [1, 2], child_table = [10], parent_child_table = [link 1 10],
      events = [Connect, Begin, Execute (InsertParent [1, 2]), Execute (InsertChild [10]),
                Execute (InsertParentChild [link 1 10]), Commit],
      row_order = (\<lambda>i. i)\<rparr>"
  by (simp add: childless_store_def create_many_def begin_block_def write_staged_def
        execute_def log_event_def new_parent_def empty_db_def empty_staging_def link_def)

lemma join_rows_childless_store: "join_rows childless_store = [(1, 10)]"
proof -
  have "in_link_order childless_store"
    by (simp add: in_link_order_def childless_store_eq)
  then have "join_rows childless_store = link_child_join childless_store"
    by (rule join_rows_in_link_order)
  then show ?thesis
    by (simp add: childless_store_eq link_child_join_def link_def)
qed

section \<open>Properties of create-many\<close>

text \<open>
  C7. For the empty input sequence, \<open>create_many\<close> returns 0 at once: the database is
  returned as it was, tables and recorded interactions alike, so nothing was connected,
  begun or executed.
\<close>

theorem create_many_empty: "create_many [] db = (Inr 0, db)"
  by (simp add: create_many_def)

theorem create_many_empty_witness:
  "create_many [] empty_db = (Inr 0, empty_db) \<and> events (snd (create_many [] empty_db)) = []"
  using create_many_empty [of empty_db] by (simp add: empty_db_def)

text \<open>
  C8. In every call of \<open>create_many\<close> the staged link rows are, position by position,
  the staged Child rows: as many link rows as Child rows, one for each distinct Child
  identity in order of first appearance, and each link row names the first Parent of the
  input whose child list contains that Child. A reference to a Child identity that is
  already staged changes nothing: it stages neither a Child row nor a link row.
\<close>

theorem links_only_for_new_children:
  assumes "st = stage_objs objs empty_staging"
  shows "length (parent_child_instances st) = length (child_instances st)
       \<and> map child_id (parent_child_instances st) = child_instances st
       \<and> child_instances st = first_seen {} (concat (map child_ids objs))
       \<and> (\<forall>l \<in> set (parent_child_instances st).
             first_parent objs (child_id l) = Some (parent_id l))
       \<and> (\<forall>p child st'. id_c child \<in> inserted_children st'
             \<longrightarrow> stage_children p [child] st' = st')"
proof -
  have links: "parent_child_instances st = links_of {} objs"
    by (simp add: assms stage_objs_links empty_staging_def)
  have kids: "child_instances st = first_seen {} (concat (map child_ids objs))"
    by (simp add: assms stage_objs_child_instances empty_staging_def)
  have same: "map child_id (parent_child_instances st) = child_instances st"
    by (simp add: links kids child_id_links_of)
  have len: "length (parent_child_instances st) = length (child_instances st)"
    using same by (metis length_map)
  have first: "\<forall>l \<in> set (parent_child_instances st).
      first_parent objs (child_id l) = Some (parent_id l)"
    by (simp add: links links_of_first_parent)
  show ?thesis
    using len same kids first by simp
qed

theorem links_only_for_new_children_witness:
  "length (parent_child_instances (stage_objs sample_batch empty_staging)) = 4
   \<and> length (child_instances (stage_objs sample_batch empty_staging)) = 4
   \<and> link 1 10 \<in> set (parent_child_instances (stage_objs sample_batch empty_staging))
   \<and> link 3 10 \<notin> set (parent_child_instances (stage_objs sample_batch empty_staging))
   \<and> first_parent sample_batch 10 = Some 1"
proof -
  let ?st = "stage_objs sample_batch empty_staging"
  have ev: "parent_child_instances ?st = [link 1 10, link 1 11, link 2 12, link 3 13]"
    by (simp add: sample_batch_def new_parent_def empty_staging_def link_def)
  have mem: "link 1 10 \<in> set (parent_child_instances ?st)"
    by (simp add: ev)
  from links_only_for_new_children [of ?st sample_batch, OF refl]
  have len: "length (parent_child_instances ?st) = length (child_instances ?st)"
    and fp: "\<forall>l \<in> set (parent_child_instances ?st).
        first_parent sample_batch (child_id l) = Some (parent_id l)"
    by blast+
  from fp mem have "first_parent sample_batch (child_id (link 1 10)) = Some (parent_id (link 1 10))"
    by blast
  then have "first_parent sample_batch 10 = Some 1"
    by (simp add: link_def)
  moreover have "length (parent_child_instances ?st) = 4"
    by (simp add: ev)
  moreover have "link 3 10 \<notin> set (parent_child_instances ?st)"
    by (simp add: ev link_def)
  ultimately show ?thesis
    using len mem by simp
qed

text \<open>
  C1, evaluated where it fails. Two distinct Parents reference the Child identity 10. One
  Child row is staged and written, as the claim says, but only one link row, for the
  first Parent; the membership of the Child in the second Parent is not written. The
  batch of the source file itself, whose third Parent shares a Child with the first,
  leaves four link rows for five memberships.
\<close>

theorem shared_child_gets_one_link:
  "child_instances (stage_objs [new_parent 1 [10], new_parent 2 [10]] empty_staging) = [10]
   \<and> parent_child_instances (stage_objs [new_parent 1 [10], new_parent 2 [10]] empty_staging)
       = [link 1 10]
   \<and> fst (create_many [new_parent 1 [10], new_parent 2 [10]] empty_db) = Inr 2
   \<and> child_table (snd (create_many [new_parent 1 [10], new_parent 2 [10]] empty_db)) = [10]
   \<and> parent_child_table (snd (create_many [new_parent 1 [10], new_parent 2 [10]] empty_db))
       = [link 1 10]
   \<and> parent_child_table (snd (create_many sample_batch empty_db))
       = [link 1 10, link 1 11, link 2 12, link 3 13]"
  by (simp add: create_many_def begin_block_def write_staged_def execute_def log_event_def
        sample_batch_def new_parent_def empty_db_def empty_staging_def link_def)

text \<open>
  C3. For every batch, \<open>create_many\<close> writes the staged rows in one transaction: for a
  non-empty batch it opens one connection and one transaction and executes the staged
  statements in the order parents, then (only if a Child row was staged) children, then
  links; for the empty batch nothing is staged and nothing is executed. Either every
  statement satisfies the constraints: then the transaction commits, the three tables
  have grown by exactly the staged rows, and the count returned is the length of the
  batch. Or some statement violates a primary-key or foreign-key constraint: then only
  a first part of the statements is executed, the transaction is rolled back, the call
  ends in the integrity error, and the three tables are what they were before the call.
\<close>

theorem create_many_atomic:
  assumes "st = stage_objs objs empty_staging" and "create_many objs db = (r, db')"
  shows "(batch_ok st db \<and> r = Inr (length objs)
          \<and> events db' =
              events db @ (if objs = [] then []
                           else [Connect, Begin] @ map Execute (statements st) @ [Commit])
          \<and> parent_table db' = parent_table db @ parent_instances st
          \<and> child_table db' = child_table db @ child_instances st
          \<and> parent_child_table db' = parent_child_table db @ parent_child_instances st)
       \<or> (\<not> batch_ok st db \<and> r = Inl IntegrityError
          \<and> (\<exists>n. 0 < n \<and> n \<le> length (statements st)
                \<and> events db' =
                    events db @ [Connect, Begin] @ map Execute (take n (statements st))
                      @ [Rollback])
          \<and> same_tables db' db)"
proof (cases "objs = []")
  case True
  with assms have "r = Inr 0" and "db' = db" and "st = empty_staging"
    by (simp_all add: create_many_def)
  with True show ?thesis
    by (simp add: batch_ok_def parents_ok_def empty_staging_def)
next
  case False
  let ?ps = "parent_instances st" and ?cs = "child_instances st"
    and ?ls = "parent_child_instances st"
  have len: "length ?ps = length objs"
    by (simp add: assms(1) staged_parents)
  have nolinks: "?cs = [] \<Longrightarrow> ?ls = []"
    by (simp add: assms(1) staged_children staged_links links_of_empty)
  note unfold = create_many_unfold [OF False, of db, folded assms(1), unfolded assms(2) Let_def]
  consider (a) "\<not> parents_ok ?ps db"
    | (b) "parents_ok ?ps db" "?cs = []"
    | (c) "parents_ok ?ps db" "?cs \<noteq> []" "\<not> children_ok ?cs db"
    | (d) "parents_ok ?ps db" "?cs \<noteq> []" "children_ok ?cs db" "\<not> links_ok ?ps ?cs ?ls db"
    | (e) "parents_ok ?ps db" "?cs \<noteq> []" "children_ok ?cs db" "links_ok ?ps ?cs ?ls db"
    by blast
  then show ?thesis
  proof cases
    case a
    with unfold have r: "r = Inl IntegrityError"
      and db': "db' = db\<lparr>events := (events db @ [Connect, Begin, Execute (InsertParent ?ps)]) @ [Rollback]\<rparr>"
      by simp_all
    have "0 < (1::nat) \<and> 1 \<le> length (statements st)
        \<and> events db' = events db @ [Connect, Begin] @ map Execute (take 1 (statements st)) @ [Rollback]"
      by (simp add: db' statements_def)
    then have ex: "\<exists>n. 0 < n \<and> n \<le> length (statements st)
        \<and> events db' = events db @ [Connect, Begin] @ map Execute (take n (statements st)) @ [Rollback]"
      by (rule exI)
    have "same_tables db' db"
      by (simp add: db' same_tables_def)
    moreover from a have "\<not> batch_ok st db"
      by (simp add: batch_ok_def)
    ultimately show ?thesis
      using r ex by blast
  next
    case b
    with unfold have r: "r = Inr (length ?ps)"
      and db': "db' = db\<lparr>parent_table := parent_table db @ ?ps,
          events := (events db @ [Connect, Begin, Execute (InsertParent ?ps)]) @ [Commit]\<rparr>"
      by simp_all
    from b have "batch_ok st db"
      by (simp add: batch_ok_def)
    then show ?thesis
      using r len b nolinks False by (simp add: db' statements_def)
  next
    case c
    with unfold have r: "r = Inl IntegrityError"
      and db': "db' = db\<lparr>events := (events db @ [Connect, Begin, Execute (InsertParent ?ps)])
          @ [Execute (InsertChild ?cs), Rollback]\<rparr>"
      by simp_all
    have "0 < (2::nat) \<and> 2 \<le> length (statements st)
        \<and> events db' = events db @ [Connect, Begin] @ map Execute (take 2 (statements st)) @ [Rollback]"
      using c by (simp add: db' statements_def)
    then have ex: "\<exists>n. 0 < n \<and> n \<le> length (statements st)
        \<and> events db' = events db @ [Connect, Begin] @ map Execute (take n (statements st)) @ [Rollback]"
      by (rule exI)
    have "same_tables db' db"
      by (simp add: db' same_tables_def)
    moreover from c have "\<not> batch_ok st db"
      by (simp add: batch_ok_def)
    ultimately show ?thesis
      using r ex by blast
  next
    case d
    with unfold have r: "r = Inl IntegrityError"
      and db': "db' = db\<lparr>events := (events db @ [Connect, Begin, Execute (InsertParent ?ps)])
          @ [Execute (InsertChild ?cs), Execute (InsertParentChild ?ls), Rollback]\<rparr>"
      by simp_all
    have "0 < (3::nat) \<and> 3 \<le> length (statements st)
        \<and> events db' = events db @ [Connect, Begin] @ map Execute (take 3 (statements st)) @ [Rollback]"
      using d by (simp add: db' statements_def)
    then have ex: "\<exists>n. 0 < n \<and> n \<le> length (statements st)
        \<and> events db' = events db @ [Connect, Begin] @ map Execute (take n (statements st)) @ [Rollback]"
      by (rule exI)
    have "same_tables db' db"
      by (simp add: db' same_tables_def)
    moreover from d have "\<not> batch_ok st db"
      by (simp add: batch_ok_def)
    ultimately show ?thesis
      using r ex by blast
  next
    case e
    with unfold have r: "r = Inr (length ?ps)"
      and db': "db' = db\<lparr>parent_table := parent_table db @ ?ps,
          child_table := child_table db @ ?cs,
          parent_child_table := parent_child_table db @ ?ls,
          events := (events db @ [Connect, Begin, Execute (InsertParent ?ps)])
            @ [Execute (InsertChild ?cs), Execute (InsertParentChild ?ls), Commit]\<rparr>"
      by simp_all
    from e have "batch_ok st db"
      by (simp add: batch_ok_def)
    then show ?thesis
      using r len e False by (simp add: db' statements_def)
  qed
qed

theorem create_many_atomic_witness:
  "colliding_batch \<noteq> []
   \<and> fst (create_many colliding_batch stored_sample) = Inl IntegrityError
   \<and> same_tables (snd (create_many colliding_batch stored_sample)) stored_sample
   \<and> 4 \<notin> set (parent_table (snd (create_many colliding_batch stored_sample)))"
proof -
  have ne: "colliding_batch \<noteq> []"
    by (simp add: colliding_batch_def)
  have r: "fst (create_many colliding_batch stored_sample) = Inl IntegrityError"
    by (simp add: colliding_batch_def stored_sample_eq create_many_def begin_block_def
          write_staged_def execute_def log_event_def new_parent_def empty_staging_def link_def)
  from create_many_atomic [OF refl prod.collapse [symmetric], of colliding_batch stored_sample] r
  have same: "same_tables (snd (create_many colliding_batch stored_sample)) stored_sample"
    by simp
  then have "parent_table (snd (create_many colliding_batch stored_sample)) = [1, 2, 3]"
    by (simp add: same_tables_def stored_sample_eq)
  then have "4 \<notin> set (parent_table (snd (create_many colliding_batch stored_sample)))"
    by simp
  with ne r same show ?thesis
    by simp
qed

text \<open>
  C5 does not hold: a Parent listing the Child identity 10 twice stages one link row, not
  two, and the write succeeds.
\<close>

theorem repeated_child_staged_once_counterexample:
  "count_list (child_ids (new_parent 1 [10, 10])) 10 = 2
   \<and> parent_child_instances (stage_objs [new_parent 1 [10, 10]] empty_staging) = [link 1 10]
   \<and> fst (create_many [new_parent 1 [10, 10]] empty_db) = Inr 1"
  by (simp add: create_many_def begin_block_def write_staged_def execute_def log_event_def
        new_parent_def empty_db_def empty_staging_def link_def child_ids_def)

text \<open>
  C5, amended. Take a batch with a Parent whose child list names a Child identity twice,
  where no earlier Parent of the batch lists that Child. Then exactly one Child row is
  staged for the identity and exactly one link row for the pair of that Parent and that
  Child. When the Parent identities of the batch are pairwise distinct, the Parent gets
  fewer link rows than its child list has positions; and when moreover the batch does not
  collide with a database whose link rows reference stored Parents, the write succeeds,
  returns the length of the batch, and leaves exactly one link row for the pair in the
  link table.
\<close>

theorem repeated_child_staged_once:
  assumes "objs = pre @ obj # post" and "2 \<le> count_list (child_ids obj) c"
    and "c \<notin> set (concat (map child_ids pre))"
  shows "count_list (child_instances (stage_objs objs empty_staging)) c = 1
       \<and> count_list (parent_child_instances (stage_objs objs empty_staging))
             (link (id_p obj) c) = 1
       \<and> (distinct (map id_p objs) \<longrightarrow>
             length (filter (\<lambda>l. parent_id l = id_p obj)
                       (parent_child_instances (stage_objs objs empty_staging)))
               < length (child_ids obj))
       \<and> (distinct (map id_p objs) \<and> no_collision objs db \<and> links_have_parents db \<longrightarrow>
             fst (create_many objs db) = Inr (length objs)
             \<and> count_list (parent_child_table (snd (create_many objs db)))
                   (link (id_p obj) c) = 1)"
proof -
  let ?st = "stage_objs objs empty_staging"
  let ?seen = "set (concat (map child_ids pre))"
  let ?mine = "map (link (id_p obj)) (first_seen ?seen (child_ids obj))"
  from assms(2) have listed: "c \<in> set (child_ids obj)"
    by (metis count_list_0_iff not_numeral_le_zero)
  have links: "parent_child_instances ?st
      = links_of {} pre @ ?mine @ links_of (?seen \<union> set (child_ids obj)) post"
    by (simp add: staged_links assms(1) links_of_append)
  have dist: "distinct (parent_child_instances ?st)"
    by (simp add: staged_links distinct_links_of)
  from listed assms(3) have "c \<in> set (first_seen ?seen (child_ids obj))"
    by (simp add: set_first_seen)
  then have "link (id_p obj) c \<in> set ?mine"
    by simp
  then have "link (id_p obj) c \<in> set (parent_child_instances ?st)"
    by (simp add: links)
  with dist have one_link: "count_list (parent_child_instances ?st) (link (id_p obj) c) = 1"
    by (rule distinct_count_one)
  from listed have "c \<in> set (child_instances ?st)"
    by (auto simp: staged_children set_first_seen assms(1))
  moreover have "distinct (child_instances ?st)"
    by (simp add: staged_children distinct_first_seen)
  ultimately have one_child: "count_list (child_instances ?st) c = 1"
    by (rule distinct_count_one [rotated])
  have fewer: "length (filter (\<lambda>l. parent_id l = id_p obj) (parent_child_instances ?st))
      < length (child_ids obj)" if d: "distinct (map id_p objs)"
  proof -
    from d have "id_p obj \<notin> id_p ` set pre" and "id_p obj \<notin> id_p ` set post"
      by (auto simp: assms(1))
    then have "filter (\<lambda>l. parent_id l = id_p obj) (parent_child_instances ?st)
        = filter (\<lambda>l. parent_id l = id_p obj) ?mine"
      by (simp add: links no_links_of_other_parents)
    then have "length (filter (\<lambda>l. parent_id l = id_p obj) (parent_child_instances ?st))
        \<le> length (first_seen ?seen (child_ids obj))"
      using length_filter_le [of "\<lambda>l. parent_id l = id_p obj" ?mine] by simp
    also have "\<dots> \<le> card (set (child_ids obj))"
      by (rule length_first_seen_le)
    also have "\<dots> < length (child_ids obj)"
      using assms(2) by (rule repeated_shorter)
    finally show ?thesis .
  qed
  have written: "fst (create_many objs db) = Inr (length objs)
      \<and> count_list (parent_child_table (snd (create_many objs db))) (link (id_p obj) c) = 1"
    if d: "distinct (map id_p objs)" and n: "no_collision objs db" and f: "links_have_parents db"
  proof -
    have ne: "objs \<noteq> []"
      by (simp add: assms(1))
    from n have "id_p obj \<notin> set (parent_table db)"
      by (auto simp: no_collision_def assms(1))
    with f have "link (id_p obj) c \<notin> set (parent_child_table db)"
      by (auto simp: links_have_parents_def link_def)
    then have "count_list (parent_child_table db) (link (id_p obj) c) = 0"
      by (simp add: count_list_0_iff)
    with one_link have "count_list (parent_child_table (snd (create_many objs db)))
        (link (id_p obj) c) = 1"
      by (simp add: create_many_succeeds(4) [OF ne d n f] staged_links)
    with create_many_succeeds(1) [OF ne d n f] show ?thesis
      by simp
  qed
  from one_child one_link fewer written show ?thesis
    by blast
qed

theorem repeated_child_staged_once_witness:
  "[new_parent 1 [10, 10]] = [] @ new_parent 1 [10, 10] # []
   \<and> 2 \<le> count_list (child_ids (new_parent 1 [10, 10])) 10
   \<and> count_list (child_instances (stage_objs [new_parent 1 [10, 10]] empty_staging)) 10 = 1
   \<and> count_list (parent_child_instances (stage_objs [new_parent 1 [10, 10]] empty_staging))
        (link 1 10) = 1
   \<and> length (filter (\<lambda>l. parent_id l = 1)
               (parent_child_instances (stage_objs [new_parent 1 [10, 10]] empty_staging))) < 2
   \<and> fst (create_many [new_parent 1 [10, 10]] empty_db) = Inr 1
   \<and> count_list (parent_child_table (snd (create_many [new_parent 1 [10, 10]] empty_db)))
        (link 1 10) = 1"
proof -
  have a: "[new_parent 1 [10, 10]] = [] @ new_parent 1 [10, 10] # []"
    by simp
  have b: "2 \<le> count_list (child_ids (new_parent 1 [10, 10])) 10"
    by (simp add: new_parent_def child_ids_def)
  have c: "10 \<notin> set (concat (map child_ids ([] :: Parent list)))"
    by simp
  have d: "distinct (map id_p [new_parent 1 [10, 10]])
      \<and> no_collision [new_parent 1 [10, 10]] empty_db \<and> links_have_parents empty_db"
    by (simp add: no_collision_def links_have_parents_def empty_db_def)
  have i: "id_p (new_parent 1 [10, 10]) = 1" "length (child_ids (new_parent 1 [10, 10])) = 2"
    by (simp_all add: new_parent_def child_ids_def)
  from repeated_child_staged_once [OF a b c, of empty_db] d
  have "count_list (child_instances (stage_objs [new_parent 1 [10, 10]] empty_staging)) 10 = 1
      \<and> count_list (parent_child_instances (stage_objs [new_parent 1 [10, 10]] empty_staging))
           (link (id_p (new_parent 1 [10, 10])) 10) = 1
      \<and> length (filter (\<lambda>l. parent_id l = id_p (new_parent 1 [10, 10]))
               (parent_child_instances (stage_objs [new_parent 1 [10, 10]] empty_staging)))
           < length (child_ids (new_parent 1 [10, 10]))
      \<and> fst (create_many [new_parent 1 [10, 10]] empty_db) = Inr (length [new_parent 1 [10, 10]])
      \<and> count_list (parent_child_table (snd (create_many [new_parent 1 [10, 10]] empty_db)))
           (link (id_p (new_parent 1 [10, 10])) 10) = 1"
    by blast
  with a b show ?thesis
    unfolding i by simp
qed

text \<open>
  C2 does not hold. On the empty database: a Parent written with no children is counted
  but cannot be fetched; in the sample batch of the source file the third Parent is read
  back without the Child it shares with the first; a Parent listing a Child twice is read
  back with that Child once; and a batch naming one Parent identity twice is rejected.
  On a database that hands the rows of the join out in the opposite order, a Parent with
  two children is read back with its children exchanged.
\<close>

theorem write_then_fetch_counterexample:
  "fst (create_many [new_parent 1 [10], new_parent 2 []] empty_db) = Inr 2
   \<and> fst (query (Single 2) (snd (create_many [new_parent 1 [10], new_parent 2 []] empty_db)))
       = Inl IndexError
   \<and> fst (create_many sample_batch empty_db) = Inr 3
   \<and> fst (query (Single 3) (snd (create_many sample_batch empty_db)))
       = Inr (One (new_parent 3 [13]))
   \<and> new_parent 3 [13] \<noteq> new_parent 3 [13, 10]
   \<and> fst (create_many [new_parent 1 [10, 10]] empty_db) = Inr 1
   \<and> fst (query (Single 1) (snd (create_many [new_parent 1 [10, 10]] empty_db)))
       = Inr (One (new_parent 1 [10]))
   \<and> fst (create_many [new_parent 1 [10], new_parent 1 [11]] empty_db) = Inl IntegrityError
   \<and> fst (create_many [new_parent 1 [10, 11]] reversing_db) = Inr 1
   \<and> fst (query (Single 1) (snd (create_many [new_parent 1 [10, 11]] reversing_db)))
       = Inr (One (new_parent 1 [11, 10]))
   \<and> new_parent 1 [11, 10] \<noteq> new_parent 1 [10, 11]"
  by (simp add: create_many_def begin_block_def write_staged_def execute_def log_event_def
        sample_batch_def new_parent_def empty_db_def reversing_db_def empty_staging_def
        query_def child_query_def join_rows_def link_child_join_def reorder_def
        make_parent_def)

text \<open>
  C2, amended. For a non-empty batch whose Parent identities are pairwise distinct, in
  which no Child identity occurs twice (neither in one child list nor in two), and which
  does not collide with a database whose link rows reference stored Parents,
  \<open>create_many\<close> returns the length of the batch, and \<open>query\<close> on the resulting
  database, for the identity of any Parent of the batch, ends in the error of
  \<open>results[0]\<close> when that Parent has no children, and otherwise returns a Parent with the
  same identity and the same children, each once, in the order in which the database
  hands out the rows: whatever that order is, the children are a rearrangement of the
  original ones, and when it is the order of the link table the Parent returned is the
  original.
\<close>

theorem write_then_fetch:
  assumes "objs \<noteq> []" and "distinct (map id_p objs)"
    and "distinct (concat (map child_ids objs))"
    and "no_collision objs db" and "links_have_parents db"
  shows "fst (create_many objs db) = Inr (length objs)
       \<and> (\<forall>obj \<in> set objs.
             (children obj = [] \<longrightarrow>
                fst (query (Single (id_p obj)) (snd (create_many objs db))) = Inl IndexError)
             \<and> (children obj \<noteq> [] \<longrightarrow>
                (\<exists>p. fst (query (Single (id_p obj)) (snd (create_many objs db))) = Inr (One p)
                    \<and> id_p p = id_p obj
                    \<and> mset (children p) = mset (children obj)
                    \<and> (in_link_order db \<longrightarrow> p = obj))))"
proof
  show "fst (create_many objs db) = Inr (length objs)"
    using assms(1,2,4,5) by (rule create_many_succeeds(1))
  let ?db' = "snd (create_many objs db)"
  show "\<forall>obj \<in> set objs.
      (children obj = [] \<longrightarrow> fst (query (Single (id_p obj)) ?db') = Inl IndexError)
      \<and> (children obj \<noteq> [] \<longrightarrow>
           (\<exists>p. fst (query (Single (id_p obj)) ?db') = Inr (One p)
               \<and> id_p p = id_p obj
               \<and> mset (children p) = mset (children obj)
               \<and> (in_link_order db \<longrightarrow> p = obj)))"
  proof
    fix obj assume obj: "obj \<in> set objs"
    let ?rows = "join_rows ?db'"
    let ?p = "aggregate ?rows (id_p obj)"
    have kids: "mset (children_of ?rows (id_p obj)) = mset (child_ids obj)"
      using assms obj by (rule fetch_children_mset)
    have "children_of ?rows (id_p obj) = [] \<longleftrightarrow> child_ids obj = []"
      using kids by (metis mset_zero_iff)
    then have found: "id_p obj \<in> fst ` set ?rows \<longleftrightarrow> children obj \<noteq> []"
      using children_of_empty_iff [of ?rows "id_p obj"] by (auto simp: child_ids_def)
    have "mset (children ?p) = image_mset (\<lambda>c. \<lparr>id_c = c\<rparr>) (mset (child_ids obj))"
      using kids by (simp add: aggregate_def)
    also have "\<dots> = mset (map (\<lambda>c. \<lparr>id_c = c\<rparr>) (child_ids obj))"
      by simp
    also have "map (\<lambda>c. \<lparr>id_c = c\<rparr>) (child_ids obj) = children obj"
      by (simp add: child_ids_def comp_def child_eta)
    finally have same: "mset (children ?p) = mset (children obj)" .
    have ordered: "?p = obj" if "in_link_order db"
    proof -
      from that have "in_link_order ?db'"
        by (simp add: in_link_order_def row_order_create_many)
      then have "?rows = link_child_join ?db'"
        by (rule join_rows_in_link_order)
      then have "children_of ?rows (id_p obj) = child_ids obj"
        using fetch_after_write [OF assms obj] by simp
      then show ?thesis
        using new_parent_child_ids [of obj] by (simp add: aggregate_def new_parent_def)
    qed
    show "(children obj = [] \<longrightarrow> fst (query (Single (id_p obj)) ?db') = Inl IndexError)
      \<and> (children obj \<noteq> [] \<longrightarrow>
           (\<exists>p. fst (query (Single (id_p obj)) ?db') = Inr (One p)
               \<and> id_p p = id_p obj
               \<and> mset (children p) = mset (children obj)
               \<and> (in_link_order db \<longrightarrow> p = obj)))"
    proof (cases "children obj = []")
      case True
      with found show ?thesis
        by (simp add: query_single_aggregate)
    next
      case False
      with found have "fst (query (Single (id_p obj)) ?db') = Inr (One ?p)"
        by (simp add: query_single_aggregate)
      moreover have "id_p ?p = id_p obj"
        by simp
      ultimately show ?thesis
        using False same ordered by blast
    qed
  qed
qed

theorem write_then_fetch_witness:
  "disjoint_batch \<noteq> [] \<and> distinct (map id_p disjoint_batch)
   \<and> distinct (concat (map child_ids disjoint_batch))
   \<and> no_collision disjoint_batch stored_sample \<and> links_have_parents stored_sample
   \<and> in_link_order stored_sample
   \<and> fst (create_many disjoint_batch stored_sample) = Inr 3
   \<and> fst (query (Single 4) (snd (create_many disjoint_batch stored_sample)))
       = Inr (One (new_parent 4 [14, 15]))
   \<and> fst (query (Single 5) (snd (create_many disjoint_batch stored_sample))) = Inl IndexError"
proof -
  have h1: "disjoint_batch \<noteq> []"
    by (simp add: disjoint_batch_def)
  have h2: "distinct (map id_p disjoint_batch)"
    by (simp add: disjoint_batch_def new_parent_def)
  have h3: "distinct (concat (map child_ids disjoint_batch))"
    by (simp add: disjoint_batch_def new_parent_def child_ids_def)
  have h4: "no_collision disjoint_batch stored_sample"
    by (simp add: no_collision_def disjoint_batch_def new_parent_def child_ids_def
          stored_sample_eq)
  have h5: "links_have_parents stored_sample"
    by (simp add: links_have_parents_def stored_sample_eq link_def)
  have h6: "in_link_order stored_sample"
    by (simp add: in_link_order_def stored_sample_eq)
  note inst = write_then_fetch [OF h1 h2 h3 h4 h5]
  from inst have r: "fst (create_many disjoint_batch stored_sample) = Inr 3"
    by (simp add: disjoint_batch_def)
  have m4: "new_parent 4 [14, 15] \<in> set disjoint_batch"
    and m5: "new_parent 5 [] \<in> set disjoint_batch"
    by (simp_all add: disjoint_batch_def)
  have c4: "children (new_parent 4 [14, 15]) \<noteq> []" and i4: "id_p (new_parent 4 [14, 15]) = 4"
    and c5: "children (new_parent 5 []) = []" and i5: "id_p (new_parent 5 []) = 5"
    by (simp_all add: new_parent_def)
  from inst m4 c4 h6 have "\<exists>p. fst (query (Single (id_p (new_parent 4 [14, 15])))
        (snd (create_many disjoint_batch stored_sample))) = Inr (One p)
      \<and> p = new_parent 4 [14, 15]"
    by blast
  then have q4: "fst (query (Single 4) (snd (create_many disjoint_batch stored_sample)))
      = Inr (One (new_parent 4 [14, 15]))"
    by (simp add: i4)
  from inst m5 c5 have "fst (query (Single (id_p (new_parent 5 [])))
        (snd (create_many disjoint_batch stored_sample))) = Inl IndexError"
    by blast
  then have q5: "fst (query (Single 5) (snd (create_many disjoint_batch stored_sample)))
      = Inl IndexError"
    by (simp add: i5)
  from h1 h2 h3 h4 h5 h6 r q4 q5 show ?thesis
    by simp
qed

section \<open>Properties of query\<close>

text \<open>
  C4 does not hold. The program has no outcome of its own for an identity that is not
  found: the identity 7, which is not stored, ends in the error that \<open>results[0]\<close>
  raises on the empty list, and so does the identity 2, which is a stored Parent with no
  children. The two cases are not told apart.
\<close>

theorem query_single_not_found_counterexample:
  "7 \<notin> set (parent_table childless_store)
   \<and> 2 \<in> set (parent_table childless_store)
   \<and> fst (query (Single 7) childless_store) = Inl IndexError
   \<and> fst (query (Single 2) childless_store) = Inl IndexError"
proof -
  have "parent_table childless_store = [1, 2]"
    by (simp add: childless_store_eq)
  moreover have "fst (query (Single 7) childless_store) = Inl IndexError"
    and "fst (query (Single 2) childless_store) = Inl IndexError"
    by (simp_all add: query_single_aggregate join_rows_childless_store)
  ultimately show ?thesis
    by simp
qed

text \<open>
  C4, amended. When the lookup of a single identity matches no row of the join, as it
  does for every identity without a link row, stored Parent or not, \<open>query\<close> ends in the
  error raised by \<open>results[0]\<close> on the empty list; that error is the only outcome other
  than an aggregate. When the lookup matches a row, the result is an aggregate of that
  identity with at least one child. So a single-key \<open>query\<close> never returns an aggregate
  with an empty child list.
\<close>

theorem query_single_not_found:
  "(child_query (Single k) db = [] \<longrightarrow> fst (query (Single k) db) = Inl IndexError)
   \<and> (child_query (Single k) db \<noteq> [] \<longrightarrow>
        (\<exists>p. fst (query (Single k) db) = Inr (One p) \<and> id_p p = k \<and> children p \<noteq> []))
   \<and> (k \<notin> parent_id ` set (parent_child_table db) \<longrightarrow> child_query (Single k) db = [])"
proof (intro conjI impI)
  assume "child_query (Single k) db = []"
  then show "fst (query (Single k) db) = Inl IndexError"
    by (simp add: query_single_eq)
next
  assume rows: "child_query (Single k) db \<noteq> []"
  then obtain row where row: "row \<in> set (child_query (Single k) db)"
    by (cases "child_query (Single k) db") auto
  then have "fst row = k"
    by (simp add: child_query_def)
  with row have "k \<in> fst ` set (child_query (Single k) db)"
    by force
  then have "children (aggregate (child_query (Single k) db) k) \<noteq> []"
    by (simp add: children_aggregate_empty_iff)
  with rows show "\<exists>p. fst (query (Single k) db) = Inr (One p) \<and> id_p p = k \<and> children p \<noteq> []"
    by (simp add: query_single_eq)
next
  assume "k \<notin> parent_id ` set (parent_child_table db)"
  with join_rows_keys [of db] have "k \<notin> fst ` set (join_rows db)"
    by blast
  then show "child_query (Single k) db = []"
    by (auto simp: child_query_def filter_empty_conv)
qed

theorem query_single_not_found_witness:
  "2 \<in> set (parent_table childless_store)
   \<and> 2 \<notin> parent_id ` set (parent_child_table childless_store)
   \<and> child_query (Single 2) childless_store = []
   \<and> fst (query (Single 2) childless_store) = Inl IndexError
   \<and> child_query (Single 1) childless_store \<noteq> []
   \<and> (\<exists>p. fst (query (Single 1) childless_store) = Inr (One p) \<and> id_p p = 1
          \<and> children p \<noteq> [])"
proof -
  have stored: "2 \<in> set (parent_table childless_store)"
    and nolink: "2 \<notin> parent_id ` set (parent_child_table childless_store)"
    by (simp_all add: childless_store_eq link_def)
  have rows: "child_query (Single 1) childless_store \<noteq> []"
    by (simp add: child_query_def join_rows_childless_store)
  from query_single_not_found [of 2 childless_store] nolink
  have "child_query (Single 2) childless_store = []"
    and "fst (query (Single 2) childless_store) = Inl IndexError"
    by blast+
  moreover from query_single_not_found [of 1 childless_store] rows
  have "\<exists>p. fst (query (Single 1) childless_store) = Inr (One p) \<and> id_p p = 1
      \<and> children p \<noteq> []"
    by blast
  ultimately show ?thesis
    using stored nolink rows by blast
qed




text \<open>
  C9. Every aggregate \<open>query\<close> returns has a non-empty child list. An identity with no
  row in the link table, such as a Parent written with an empty child list, is never
  returned: the single-key lookup ends in the error of \<open>results[0]\<close>, and the multi-key
  lookup leaves it out.
\<close>

theorem query_never_returns_childless:
  "(\<forall>p. fst (query (Single k) db) = Inr (One p) \<longrightarrow> children p \<noteq> [])
   \<and> (\<forall>ps. fst (query (Multi ks) db) = Inr (Many ps) \<longrightarrow> (\<forall>p \<in> set ps. children p \<noteq> []))
   \<and> (k \<notin> parent_id ` set (parent_child_table db) \<longrightarrow>
        fst (query (Single k) db) = Inl IndexError
        \<and> (\<forall>ps. fst (query (Multi ks) db) = Inr (Many ps) \<longrightarrow> k \<notin> id_p ` set ps))"
proof (intro conjI allI impI)
  fix p assume one: "fst (query (Single k) db) = Inr (One p)"
  show "children p \<noteq> []"
  proof (cases "k \<in> fst ` set (join_rows db)")
    case True
    with one have "p = aggregate (join_rows db) k"
      by (simp add: query_single_aggregate)
    with True show ?thesis
      by (simp add: children_aggregate_empty_iff)
  next
    case False
    with one show ?thesis
      by (simp add: query_single_aggregate)
  qed
next
  fix ps assume "fst (query (Multi ks) db) = Inr (Many ps)"
  then have ps: "ps = map (aggregate (join_rows db))
                        (first_seen {} (map fst (child_query (Multi ks) db)))"
    by (simp add: query_multi_aggregates)
  show "\<forall>p \<in> set ps. children p \<noteq> []"
  proof
    fix p assume "p \<in> set ps"
    then obtain k' where k': "k' \<in> fst ` set (child_query (Multi ks) db)"
      and p: "p = aggregate (join_rows db) k'"
      by (auto simp: ps set_first_seen)
    from k' have "k' \<in> fst ` set (join_rows db)"
      by (simp add: keys_multi)
    with p show "children p \<noteq> []"
      by (simp add: children_aggregate_empty_iff)
  qed
next
  assume "k \<notin> parent_id ` set (parent_child_table db)"
  with join_rows_keys [of db] have "k \<notin> fst ` set (join_rows db)"
    by blast
  then show "fst (query (Single k) db) = Inl IndexError"
    by (simp add: query_single_aggregate)
next
  fix ps
  assume nolink: "k \<notin> parent_id ` set (parent_child_table db)"
    and "fst (query (Multi ks) db) = Inr (Many ps)"
  then have ps: "ps = map (aggregate (join_rows db))
                        (first_seen {} (map fst (child_query (Multi ks) db)))"
    by (simp add: query_multi_aggregates)
  from nolink join_rows_keys [of db] have "k \<notin> fst ` set (join_rows db)"
    by blast
  then have "k \<notin> fst ` set (child_query (Multi ks) db)"
    by (simp add: keys_multi)
  then have "k \<notin> set (first_seen {} (map fst (child_query (Multi ks) db)))"
    by (simp add: set_first_seen)
  moreover have "id_p ` set ps = set (first_seen {} (map fst (child_query (Multi ks) db)))"
    unfolding ps by (simp add: image_image)
  ultimately show "k \<notin> id_p ` set ps"
    by simp
qed

theorem query_never_returns_childless_witness:
  "2 \<in> set (parent_table childless_store)
   \<and> 2 \<notin> parent_id ` set (parent_child_table childless_store)
   \<and> fst (query (Single 2) childless_store) = Inl IndexError
   \<and> fst (query (Multi [1, 2]) childless_store) = Inr (Many [new_parent 1 [10]])"
proof -
  have nolink: "2 \<notin> parent_id ` set (parent_child_table childless_store)"
    by (simp add: childless_store_eq link_def)
  with query_never_returns_childless [of 2 childless_store "[1, 2]"]
  have "fst (query (Single 2) childless_store) = Inl IndexError"
    by blast
  moreover have "fst (query (Multi [1, 2]) childless_store) = Inr (Many [new_parent 1 [10]])"
    by (simp add: query_multi_aggregates join_rows_childless_store child_query_def
          aggregate_def children_of_def new_parent_def)
  moreover have "2 \<in> set (parent_table childless_store)"
    by (simp add: childless_store_eq)
  ultimately show ?thesis
    using nolink by simp
qed

text \<open>
  C10. For every collection of keys, the returned aggregates have pairwise distinct
  identities, and every requested identity the join has a row for is returned exactly
  once, however often it is listed; the keys with their repetitions removed give the same
  result.
\<close>

theorem query_multi_once:
  "\<exists>ps. fst (query (Multi ks) db) = Inr (Many ps)
      \<and> distinct (map id_p ps)
      \<and> (\<forall>k \<in> set ks. k \<in> fst ` set (join_rows db)
            \<longrightarrow> length (filter (\<lambda>p. id_p p = k) ps) = 1)
      \<and> fst (query (Multi (remdups ks)) db) = Inr (Many ps)"
proof -
  let ?keys = "first_seen {} (map fst (child_query (Multi ks) db))"
  let ?ps = "map (aggregate (join_rows db)) ?keys"
  have q: "fst (query (Multi ks) db) = Inr (Many ?ps)"
    by (rule query_multi_aggregates)
  have ids: "map id_p ?ps = ?keys"
    by (simp add: comp_def)
  have dist: "distinct (map id_p ?ps)"
    unfolding ids by (rule distinct_first_seen)
  have once: "\<forall>k \<in> set ks. k \<in> fst ` set (join_rows db)
      \<longrightarrow> length (filter (\<lambda>p. id_p p = k) ?ps) = 1"
  proof (intro ballI impI)
    fix k assume "k \<in> set ks" and "k \<in> fst ` set (join_rows db)"
    then have "k \<in> set ?keys"
      by (simp add: set_first_seen keys_multi)
    then have "length (filter (\<lambda>y. y = k) ?keys) = 1"
      using distinct_first_seen by (rule distinct_occurs_once [rotated])
    then show "length (filter (\<lambda>p. id_p p = k) ?ps) = 1"
      by (simp add: filter_map comp_def)
  qed
  have "child_query (Multi (remdups ks)) db = child_query (Multi ks) db"
    by (simp add: child_query_def cong: filter_cong)
  then have "fst (query (Multi (remdups ks)) db) = Inr (Many ?ps)"
    by (simp add: query_multi_aggregates)
  with q dist once show ?thesis
    by blast
qed

theorem query_multi_once_witness:
  "fst (query (Multi [1, 1, 3, 1]) stored_sample)
     = Inr (Many [new_parent 1 [10, 11], new_parent 3 [13]])
   \<and> fst (query (Multi (remdups [1, 1, 3, 1])) stored_sample)
     = Inr (Many [new_parent 1 [10, 11], new_parent 3 [13]])
   \<and> length (filter (\<lambda>p. id_p p = 1) [new_parent 1 [10, 11], new_parent 3 [13]]) = 1"
proof -
  from query_multi_once [of "[1, 1, 3, 1]" stored_sample]
  obtain ps where q: "fst (query (Multi [1, 1, 3, 1]) stored_sample) = Inr (Many ps)"
    and once: "\<forall>k \<in> set [1, 1, 3, 1]. k \<in> fst ` set (join_rows stored_sample)
        \<longrightarrow> length (filter (\<lambda>p. id_p p = k) ps) = 1"
    and dedup: "fst (query (Multi (remdups [1, 1, 3, 1])) stored_sample) = Inr (Many ps)"
    by blast
  have "fst (query (Multi [1, 1, 3, 1]) stored_sample)
          = Inr (Many [new_parent 1 [10, 11], new_parent 3 [13]])"
    by (simp add: query_multi_aggregates join_rows_stored_sample child_query_def
          aggregate_def children_of_def new_parent_def)
  with q have ps: "ps = [new_parent 1 [10, 11], new_parent 3 [13]]"
    by simp
  have "(1::nat) \<in> set [1, 1, 3, 1]" and "1 \<in> fst ` set (join_rows stored_sample)"
    by (simp_all add: join_rows_stored_sample)
  with once have "length (filter (\<lambda>p. id_p p = 1) ps) = 1"
    by blast
  with q dedup show ?thesis
    unfolding ps by simp
qed

end
